theory Spec2Isabelle
  imports Complex_Main "HOL-Library.Sublist"
begin

section \<open>Node health checker: data model\<close>

text \<open>
  The embedding follows \<^verbatim>\<open>health_patch.js\<close>. A JavaScript number is an IEEE 754
  binary64 value. The millisecond readings of \<^verbatim>\<open>Date.now()\<close>, their differences
  and the counters are integers, on which the arithmetic is exact; the average latency
  and the score are rationals, and where the source divides (or multiplies a quotient)
  the result is rounded to the nearest binary64 value (\<open>to_double\<close>). \<^verbatim>\<open>null\<close> is
  \<open>None\<close>; where the source does arithmetic on a possibly-null latency the
  coercion of \<^verbatim>\<open>null\<close> to \<open>0\<close> is written out (\<open>ToNumber\<close>).
\<close>

record health_config =
  STABILITY :: rat
  MAX_LATENCY :: int
  CHECK_TIMEOUT :: int
  REQUIRED_TESTS :: nat

definition HEALTH_CONFIG :: health_config where
  "HEALTH_CONFIG =
     \<lparr>STABILITY = 1, MAX_LATENCY = 150, CHECK_TIMEOUT = 5000, REQUIRED_TESTS = 3\<rparr>"

text \<open>
  The response of \<^verbatim>\<open>fetch\<close>: only its status is read. An opaque (no-cors)
  response has status \<open>0\<close>, which the source treats as "no status available".
\<close>

record response =
  status :: nat

text \<open>
  One call of \<^verbatim>\<open>fetch\<close> either resolves with a response or rejects with an error
  (transport failure, or the abort fired after \<open>CHECK_TIMEOUT\<close>). The outcome
  carries the two clock readings the source takes afterwards: \<open>elapsed\<close> is
  \<^verbatim>\<open>Date.now() - startTime\<close>, \<open>stamp\<close> is the later \<^verbatim>\<open>Date.now()\<close>.
\<close>

datatype fetch_outcome =
    Resolved response int int
  | Rejected string int

text \<open>
  The network is an oracle: \<open>net u n\<close> is the outcome of the \<open>n\<close>-th fetch the
  program issues (counted from \<open>0\<close>) when it is addressed to \<open>u\<close>. Every function
  that probes takes the number of fetches issued so far and returns the new count.
\<close>

type_synonym network = "string \<Rightarrow> nat \<Rightarrow> fetch_outcome"

text \<open>
  The object returned by \<^verbatim>\<open>verifyRealConnection\<close>. A field the source leaves
  out of the object literal (\<open>status\<close> after a rejection, \<open>error\<close> after a
  response) is \<open>None\<close>.
\<close>

record probeResult =
  healthy :: bool
  latency :: "int option"
  timestamp :: int
  status :: "nat option"
  error :: "string option"

text \<open>
  The two object shapes returned by \<^verbatim>\<open>testStability\<close>:
  \<open>Unstable attempt reason\<close> is \<^verbatim>\<open>{stable: false, attempt, reason}\<close> and
  \<open>Stable attempts avgLatency successRate\<close> is
  \<^verbatim>\<open>{stable: true, attempts, avgLatency, successRate}\<close>.
\<close>

datatype stabilityResult =
    Unstable nat string
  | Stable nat rat rat

text \<open>The field \<open>stable\<close>, which tells the two shapes apart.\<close>

fun stable :: "stabilityResult \<Rightarrow> bool" where
  "stable (Unstable attempt reason) = False"
| "stable (Stable attempts avg successRate) = True"

text \<open>
  A node has an identifier and an address; whatever else it carries is \<open>extra\<close>.
  The spread \<^verbatim>\<open>{...node, f: v}\<close> is the record extended by the new fields.
\<close>

record 'm node =
  id :: string
  url :: string
  extra :: 'm

record 'm scoredNode = "'m node" +
  latency :: "int option"
  avgLatency :: rat
  score :: rat

record 'm registryEntry = "'m node" +
  health :: probeResult
  stability :: stabilityResult

record stats =
  totalChecks :: nat
  successfulChecks :: nat
  failedChecks :: nat

record statsWithRate = stats +
  healthRate :: string

text \<open>
  The fields of a \<^verbatim>\<open>NodeHealthChecker\<close>. The JavaScript \<^verbatim>\<open>Map\<close> iterates in
  insertion order, so it is an association list with distinct keys, oldest first.
\<close>

record 'm checker =
  healthyNodes :: "(string \<times> 'm registryEntry) list"
  unhealthyNodes :: "string set"
  stats :: stats

record 'm checkResult =
  healthy :: "'m scoredNode list"
  stats :: statsWithRate

section \<open>The checker\<close>

definition constructor :: "'m checker" where
  "constructor =
     \<lparr>healthyNodes = [], unhealthyNodes = {},
      checker.stats = \<lparr>totalChecks = 0, successfulChecks = 0, failedChecks = 0\<rparr>\<rparr>"

definition validateResponse :: "response \<Rightarrow> int \<Rightarrow> bool" where
  "validateResponse resp lat =
     (if lat > MAX_LATENCY HEALTH_CONFIG then False
      else if lat < 1 then False
      else if response.status resp \<noteq> 0 \<and> response.status resp \<ge> 400 then False
      else True)"

definition verifyRealConnection :: "network \<Rightarrow> ('m, 'a) node_scheme \<Rightarrow> nat \<Rightarrow> probeResult" where
  "verifyRealConnection net node n =
     (case net (url node) n of
        Resolved resp lat now \<Rightarrow>
          \<lparr>probeResult.healthy = validateResponse resp lat,
           probeResult.latency = Some lat,
           timestamp = now,
           probeResult.status = Some (response.status resp),
           error = None\<rparr>
      | Rejected msg now \<Rightarrow>
          \<lparr>probeResult.healthy = False,
           probeResult.latency = None,
           timestamp = now,
           probeResult.status = None,
           error = Some msg\<rparr>)"

text \<open>
  \<^verbatim>\<open>ToNumber\<close> on a latency: \<^verbatim>\<open>null\<close> counts as \<open>0\<close> in JavaScript arithmetic
  and comparisons.
\<close>

fun ToNumber :: "int option \<Rightarrow> int" where
  "ToNumber None = 0"
| "ToNumber (Some v) = v"

text \<open>
  The literal of the generic failure reason, as its UTF-8 bytes (four CJK characters
  meaning "connection failed").
\<close>

definition CONNECTION_FAILED :: string where
  "CONNECTION_FAILED =
     [CHR 0xE8, CHR 0xBF, CHR 0x9E, CHR 0xE6, CHR 0x8E, CHR 0xA5,
      CHR 0xE5, CHR 0xA4, CHR 0xB1, CHR 0xE8, CHR 0xB4, CHR 0xA5]"

text \<open>
  \<^verbatim>\<open>result.error || CONNECTION_FAILED\<close>: a missing message and the empty message
  are both falsy.
\<close>

definition reason_of :: "probeResult \<Rightarrow> string" where
  "reason_of result =
     (case error result of
        None \<Rightarrow> CONNECTION_FAILED
      | Some msg \<Rightarrow> if msg = [] then CONNECTION_FAILED else msg)"

text \<open>
  Rounding to binary64, as every JavaScript division and multiplication does: the
  nearest value with a 53-bit significand, a tie going to the even significand. For a
  positive \<open>q\<close>, \<open>exponent_of q\<close> is the \<open>e\<close> with \<open>2^e \<le> q < 2^(e + 1)\<close>; below
  \<open>2^(- 1022)\<close> the spacing stays that of the smallest normal values. (From \<open>2^1024\<close>
  on binary64 overflows; the quotients and products of this program stay far below.)
\<close>

fun log2floor :: "nat \<Rightarrow> nat" where
  "log2floor n = (if n < 2 then 0 else Suc (log2floor (n div 2)))"

definition pow2 :: "int \<Rightarrow> rat" where
  "pow2 e = (if 0 \<le> e then 2 ^ nat e else 1 / 2 ^ nat (- e))"

definition exponent_of :: "rat \<Rightarrow> int" where
  "exponent_of q =
     (if 1 \<le> q then int (log2floor (nat \<lfloor>q\<rfloor>))
      else (let r = 1 / q; k = int (log2floor (nat \<lfloor>r\<rfloor>))
            in if r = pow2 k then - k else - k - 1))"

definition round_half_even :: "rat \<Rightarrow> int" where
  "round_half_even x =
     (let f = \<lfloor>x\<rfloor>; d = x - of_int f
      in if d < 1 / 2 then f
         else if d > 1 / 2 then f + 1
         else if even f then f else f + 1)"

definition to_double :: "rat \<Rightarrow> rat" where
  "to_double q =
     (if q = 0 then 0
      else (let a = \<bar>q\<bar>;
                e = max (exponent_of a) (- 1022);
                m = round_half_even (a * pow2 (52 - e))
            in sgn q * of_int m * pow2 (e - 52)))"

text \<open>
  \<^verbatim>\<open>results.reduce((sum, r) => sum + r.latency, 0) / results.length\<close>: an exact sum
  of integers, then one binary64 division. The list is never empty where the source
  divides (it holds \<open>REQUIRED_TESTS = 3\<close> results).
\<close>

definition average :: "probeResult list \<Rightarrow> rat" where
  "average results =
     to_double
       (of_int (foldl (\<lambda>sum r. sum + ToNumber (probeResult.latency r)) 0 results)
          / of_nat (length results))"

text \<open>
  The loop of \<^verbatim>\<open>testStability\<close>, with its counter \<open>i\<close> and the results pushed so
  far; \<open>n\<close> counts the fetches issued. The pause between two attempts has no
  effect on the values and is left out.
\<close>

function testStability_loop ::
  "network \<Rightarrow> ('m, 'a) node_scheme \<Rightarrow> nat \<Rightarrow> nat \<Rightarrow> probeResult list \<Rightarrow> stabilityResult \<times> nat"
where
  "testStability_loop net node n i results =
     (if i < REQUIRED_TESTS HEALTH_CONFIG then
        (let result = verifyRealConnection net node n;
             pushed = results @ [result]
         in if \<not> probeResult.healthy result
            then (Unstable (i + 1) (reason_of result), n + 1)
            else testStability_loop net node (n + 1) (i + 1) pushed)
      else (Stable (REQUIRED_TESTS HEALTH_CONFIG) (average results) 1, n))"
  by pat_completeness auto
termination
  by (relation "measure (\<lambda>(net, node, n, i, results). REQUIRED_TESTS HEALTH_CONFIG - i)") auto

definition testStability :: "network \<Rightarrow> ('m, 'a) node_scheme \<Rightarrow> nat \<Rightarrow> stabilityResult \<times> nat" where
  "testStability net node n = testStability_loop net node n 0 []"

definition calculateScore :: "rat \<Rightarrow> rat \<Rightarrow> rat" where
  "calculateScore currentLatency avg =
     (let latencyScore = max 0 (100 - currentLatency);
          stabilityBonus = (if \<bar>currentLatency - avg\<bar> < 20 then 20 else 0)
      in latencyScore + stabilityBonus)"

text \<open>\<^verbatim>\<open>Map.prototype.set\<close>: an existing key keeps its place, a new key goes last.\<close>

fun Map_set :: "('k \<times> 'v) list \<Rightarrow> 'k \<Rightarrow> 'v \<Rightarrow> ('k \<times> 'v) list" where
  "Map_set [] k v = [(k, v)]"
| "Map_set ((k', v') # m) k v =
     (if k' = k then (k, v) # m else (k', v') # Map_set m k v)"

text \<open>
  \<^verbatim>\<open>Array.prototype.sort\<close> with a comparator: the language guarantees a stable sort,
  whose result is the one of insertion sort; \<open>a\<close> stays before \<open>b\<close> unless
  \<open>cmp a b > 0\<close>.
\<close>

fun insert_cmp :: "('a \<Rightarrow> 'a \<Rightarrow> rat) \<Rightarrow> 'a \<Rightarrow> 'a list \<Rightarrow> 'a list" where
  "insert_cmp cmp a [] = [a]"
| "insert_cmp cmp a (b # bs) =
     (if cmp a b > 0 then b # insert_cmp cmp a bs else a # b # bs)"

fun sort_cmp :: "('a \<Rightarrow> 'a \<Rightarrow> rat) \<Rightarrow> 'a list \<Rightarrow> 'a list" where
  "sort_cmp cmp [] = []"
| "sort_cmp cmp (a # as) = insert_cmp cmp a (sort_cmp cmp as)"

text \<open>
  The counters after one node: \<^verbatim>\<open>successfulChecks++\<close> or \<^verbatim>\<open>failedChecks++\<close>,
  then \<^verbatim>\<open>totalChecks++\<close>.
\<close>

definition bump :: "bool \<Rightarrow> stats \<Rightarrow> stats" where
  "bump ok s =
     (let s1 = (if ok then s\<lparr>successfulChecks := successfulChecks s + 1\<rparr>
                else s\<lparr>failedChecks := failedChecks s + 1\<rparr>)
      in s1\<lparr>totalChecks := totalChecks s1 + 1\<rparr>)"

text \<open>
  The body of the loop of \<^verbatim>\<open>checkAllNodes\<close> for one node: the checker, the fetch
  count and the local array \<open>healthyNodes\<close> (here \<open>acc\<close>) before and after.
\<close>

definition checkNode ::
  "network \<Rightarrow> 'm checker \<Rightarrow> nat \<Rightarrow> 'm scoredNode list \<Rightarrow> 'm node
     \<Rightarrow> 'm checker \<times> nat \<times> 'm scoredNode list"
where
  "checkNode net c n acc node =
     (case testStability net node n of
        (Stable attempts avg rate, n1) \<Rightarrow>
          (let finalCheck = verifyRealConnection net node n1 in
           if probeResult.healthy finalCheck then
             (c\<lparr>healthyNodes :=
                   Map_set (healthyNodes c) (node.id node)
                     \<lparr>node.id = node.id node, url = url node, extra = extra node,
                      health = finalCheck,
                      stability = Stable attempts avg rate\<rparr>,
                 checker.stats := bump True (checker.stats c)\<rparr>,
              n1 + 1,
              acc @ [\<lparr>node.id = node.id node, url = url node, extra = extra node,
                      scoredNode.latency = probeResult.latency finalCheck,
                      avgLatency = avg,
                      score = calculateScore
                                (of_int (ToNumber (probeResult.latency finalCheck))) avg\<rparr>])
           else
             (c\<lparr>unhealthyNodes := insert (node.id node) (unhealthyNodes c),
                 checker.stats := bump False (checker.stats c)\<rparr>,
              n1 + 1, acc))
      | (Unstable attempt reason, n1) \<Rightarrow>
          (c\<lparr>unhealthyNodes := insert (node.id node) (unhealthyNodes c),
              checker.stats := bump False (checker.stats c)\<rparr>,
           n1, acc))"

fun checkAllNodes_loop ::
  "network \<Rightarrow> 'm checker \<Rightarrow> nat \<Rightarrow> 'm scoredNode list \<Rightarrow> 'm node list
     \<Rightarrow> 'm checker \<times> nat \<times> 'm scoredNode list"
where
  "checkAllNodes_loop net c n acc [] = (c, n, acc)"
| "checkAllNodes_loop net c n acc (node # rest) =
     (case checkNode net c n acc node of
        (c', n', acc') \<Rightarrow> checkAllNodes_loop net c' n' acc' rest)"

text \<open>
  The value of \<^verbatim>\<open>successfulChecks / totalChecks * 100\<close>: a JavaScript division by
  zero does not raise, it yields \<^verbatim>\<open>NaN\<close> (for \<open>0 / 0\<close>) or \<^verbatim>\<open>Infinity\<close>.
  The quotient is rounded to binary64, and so is its product with \<open>100\<close>.
\<close>

datatype number = NaN | Infinity | Finite rat

definition divide_number :: "nat \<Rightarrow> nat \<Rightarrow> number" where
  "divide_number a b =
     (if b = 0 then (if a = 0 then NaN else Infinity)
      else Finite (to_double (of_nat a / of_nat b)))"

fun times_number :: "number \<Rightarrow> rat \<Rightarrow> number" where
  "times_number NaN k = NaN"
| "times_number Infinity k = Infinity"
| "times_number (Finite q) k = Finite (to_double (q * k))"

fun decimal :: "nat \<Rightarrow> string" where
  "decimal n =
     (if n < 10 then [''0123456789'' ! n]
      else decimal (n div 10) @ [''0123456789'' ! (n mod 10)])"

text \<open>
  \<^verbatim>\<open>Number.prototype.toFixed(1)\<close>: a value that is not finite prints as its name;
  the exact value of a finite binary64 number is rounded to the nearest tenth, a tie
  going up, and printed with one digit after the point. (Values from \<open>10^21\<close> on print
  differently; a rate never exceeds \<open>100\<close>.)
\<close>

definition toFixed1 :: "number \<Rightarrow> string" where
  "toFixed1 x =
     (case x of
        NaN \<Rightarrow> ''NaN''
      | Infinity \<Rightarrow> ''Infinity''
      | Finite q \<Rightarrow>
          (let n = nat \<lfloor>\<bar>q\<bar> * 10 + 1 / 2\<rfloor>
           in (if q < 0 then ''-'' else [])
                @ decimal (n div 10) @ ''.'' @ decimal (n mod 10)))"

text \<open>
  \<^verbatim>\<open>checkAllNodes\<close>: the loop over the list from an empty local array, the sort by
  descending score, and the returned object; the checker and the fetch count after the
  call are returned with it.
\<close>

definition checkAllNodes ::
  "network \<Rightarrow> 'm checker \<Rightarrow> nat \<Rightarrow> 'm node list \<Rightarrow> 'm checkResult \<times> 'm checker \<times> nat"
where
  "checkAllNodes net c n nodeList =
     (case checkAllNodes_loop net c n [] nodeList of
        (c', n', acc) \<Rightarrow>
          (let sortedNodes = sort_cmp (\<lambda>a b. score b - score a) acc in
           (\<lparr>checkResult.healthy = sortedNodes,
             checkResult.stats =
               \<lparr>totalChecks = totalChecks (checker.stats c'),
                successfulChecks = successfulChecks (checker.stats c'),
                failedChecks = failedChecks (checker.stats c'),
                healthRate =
                  toFixed1 (times_number
                     (divide_number (successfulChecks (checker.stats c'))
                        (totalChecks (checker.stats c'))) 100) @ ''%''\<rparr>\<rparr>,
            c', n')))"

text \<open>
  \<^verbatim>\<open>getBestNode\<close>: the loop over the map in insertion order, with \<open>bestNode\<close> and
  \<open>highestScore\<close>. The comparison \<^verbatim>\<open>a < b\<close> coerces \<^verbatim>\<open>null\<close> to \<open>0\<close>;
  \<^verbatim>\<open>highestScore === -1\<close> does not coerce.
\<close>

fun getBestNode_loop ::
  "(string \<times> 'm registryEntry) list \<Rightarrow> 'm registryEntry option \<Rightarrow> int option
     \<Rightarrow> 'm registryEntry option"
where
  "getBestNode_loop [] bestNode highestScore = bestNode"
| "getBestNode_loop ((k, node) # rest) bestNode highestScore =
     (if ToNumber (probeResult.latency (health node)) < ToNumber highestScore
         \<or> highestScore = Some (- 1)
      then getBestNode_loop rest (Some node) (probeResult.latency (health node))
      else getBestNode_loop rest bestNode highestScore)"

definition getBestNode :: "'m checker \<Rightarrow> 'm registryEntry option" where
  "getBestNode c = getBestNode_loop (healthyNodes c) None (Some (- 1))"

section \<open>Notions used to state the claims\<close>

text \<open>
  A node passes when \<^verbatim>\<open>checkAllNodes\<close> takes the success branch for it: the
  stability test (started at fetch \<open>n\<close>) is stable and the confirmation probe after it
  is healthy. Otherwise the node fails.
\<close>

definition nodePasses :: "network \<Rightarrow> ('m, 'a) node_scheme \<Rightarrow> nat \<Rightarrow> bool" where
  "nodePasses net node n =
     (case testStability net node n of
        (Stable attempts avg rate, n1) \<Rightarrow>
          probeResult.healthy (verifyRealConnection net node n1)
      | (Unstable attempt reason, n1) \<Rightarrow> False)"

text \<open>The fetch count after one node has been checked.\<close>

definition fetchesAfter :: "network \<Rightarrow> ('m, 'a) node_scheme \<Rightarrow> nat \<Rightarrow> nat" where
  "fetchesAfter net node n =
     (case testStability net node n of
        (Stable attempts avg rate, n1) \<Rightarrow> n1 + 1
      | (Unstable attempt reason, n1) \<Rightarrow> n1)"

text \<open>The nodes of the list that fail during one call that starts at fetch \<open>n\<close>.\<close>

fun failedNodes :: "network \<Rightarrow> nat \<Rightarrow> 'm node list \<Rightarrow> 'm node list" where
  "failedNodes net n [] = []"
| "failedNodes net n (node # rest) =
     (if nodePasses net node n then [] else [node])
       @ failedNodes net (fetchesAfter net node n) rest"

text \<open>The input node a scored node was built from.\<close>

definition node_of :: "'m scoredNode \<Rightarrow> 'm node" where
  "node_of s = \<lparr>node.id = node.id s, url = url s, extra = extra s\<rparr>"

text \<open>
  What holds of every scored node the loop collects, and of every entry it registers:
  the confirmation probe was healthy, so its latency is a number from 1 to 150.
\<close>

definition scored_ok :: "'m scoredNode \<Rightarrow> bool" where
  "scored_ok s \<longleftrightarrow>
     (\<exists>l. scoredNode.latency s = Some l \<and> 1 \<le> l \<and> l \<le> 150) \<and> score s \<le> 119"

definition entry_ok :: "'m registryEntry \<Rightarrow> bool" where
  "entry_ok e \<longleftrightarrow>
     probeResult.healthy (health e)
     \<and> (\<exists>l. probeResult.latency (health e) = Some l \<and> 1 \<le> l \<and> l \<le> 150)"

text \<open>
  The checker states the program can be in: the new checker, and the checker after
  any call of \<^verbatim>\<open>checkAllNodes\<close> on a state it can be in (nothing else writes the
  fields).
\<close>

inductive reachable :: "'m checker \<Rightarrow> bool" where
  reachable_new: "reachable constructor"
| reachable_run: "reachable c \<Longrightarrow> reachable (fst (snd (checkAllNodes net c n nodeList)))"

section \<open>Example inputs\<close>

text \<open>Concrete nodes and networks on which the theorems below are instantiated.\<close>

definition ex_nodeA :: "unit node" where
  "ex_nodeA = \<lparr>node.id = ''A'', url = ''http://a.example'', extra = ()\<rparr>"

definition ex_nodeB :: "unit node" where
  "ex_nodeB = \<lparr>node.id = ''B'', url = ''http://b.example'', extra = ()\<rparr>"

text \<open>Two attempts answer in 40 ms with status 200, every later fetch times out.\<close>

definition ex_net_third_fails :: network where
  "ex_net_third_fails u n =
     (if n < 2 then Resolved \<lparr>response.status = 200\<rparr> 40 (1000 + int n)
      else Rejected ''The operation was aborted'' 9000)"

text \<open>Opaque responses after 100, 110, 90 ms, then 95 ms on every later fetch.\<close>

definition ex_net_steady :: network where
  "ex_net_steady u n =
     Resolved \<lparr>response.status = 0\<rparr>
       (if n = 0 then 100 else if n = 1 then 110 else if n = 2 then 90 else 95) 5000"

text \<open>Four fetches answer in 50 ms with status 200, every later fetch is refused.\<close>

definition ex_net_then_down :: network where
  "ex_net_then_down u n =
     (if n < 4 then Resolved \<lparr>response.status = 200\<rparr> 50 (1000 + int n)
      else Rejected ''Failed to fetch'' 9000)"

text \<open>The first four fetches take 80 ms, the later ones 60 ms.\<close>

definition ex_net_80_60 :: network where
  "ex_net_80_60 u n = Resolved \<lparr>response.status = 200\<rparr> (if n < 4 then 80 else 60) 7000"

text \<open>The checker after a first call on node A while the network is up.\<close>

definition ex_checker_after_A :: "unit checker" where
  "ex_checker_after_A = fst (snd (checkAllNodes ex_net_then_down constructor 0 [ex_nodeA]))"

text \<open>The checker after a call on the nodes A and B, confirmed at 80 and 60 ms.\<close>

definition ex_checker_80_60 :: "unit checker" where
  "ex_checker_80_60 = fst (snd (checkAllNodes ex_net_80_60 constructor 0 [ex_nodeA, ex_nodeB]))"

definition ex_nodeC :: "unit node" where
  "ex_nodeC = \<lparr>node.id = ''C'', url = ''http://c.example'', extra = ()\<rparr>"

text \<open>
  Fetches 4 to 7 (the second node checked) take 30 ms, all others 50 ms: three nodes
  checked in a row score 70, 90 and 70.
\<close>

definition ex_net_tie :: network where
  "ex_net_tie u n =
     Resolved \<lparr>response.status = 200\<rparr> (if 4 \<le> n \<and> n < 8 then 30 else 50) 3000"

text \<open>Opaque responses after 100, 100, 101 ms, then 100 ms on every later fetch.\<close>

definition ex_net_uneven :: network where
  "ex_net_uneven u n =
     Resolved \<lparr>response.status = 0\<rparr> (if n = 2 then 101 else 100) 5000"

section \<open>The prober and the stability test\<close>

declare testStability_loop.simps [simp del]

declare log2floor.simps [simp del]

lemma healthy_latency:
  assumes "probeResult.healthy (verifyRealConnection net node n)"
  shows "\<exists>l. probeResult.latency (verifyRealConnection net node n) = Some l \<and> 1 \<le> l \<and> l \<le> 150"
  using assms
  by (auto simp: verifyRealConnection_def validateResponse_def HEALTH_CONFIG_def
           split: fetch_outcome.splits if_splits)

lemma testStability_loop_unstable:
  assumes "i + j < REQUIRED_TESTS HEALTH_CONFIG"
    and "\<forall>m<j. probeResult.healthy (verifyRealConnection net node (n + m))"
    and "\<not> probeResult.healthy (verifyRealConnection net node (n + j))"
  shows "testStability_loop net node n i results =
           (Unstable (i + j + 1) (reason_of (verifyRealConnection net node (n + j))), n + j + 1)"
  using assms
proof (induction j arbitrary: n i results)
  case 0
  then show ?case
    by (subst testStability_loop.simps) simp
next
  case (Suc j)
  have h0: "probeResult.healthy (verifyRealConnection net node n)"
    using Suc.prems(2) by (metis add.right_neutral zero_less_Suc)
  have step: "testStability_loop net node n i results =
                testStability_loop net node (n + 1) (i + 1)
                  (results @ [verifyRealConnection net node n])"
    using Suc.prems(1) h0 by (subst testStability_loop.simps) (simp add: Let_def)
  have "testStability_loop net node (n + 1) (i + 1) (results @ [verifyRealConnection net node n]) =
          (Unstable (i + 1 + j + 1) (reason_of (verifyRealConnection net node (n + 1 + j))),
           n + 1 + j + 1)"
  proof (rule Suc.IH)
    show "i + 1 + j < REQUIRED_TESTS HEALTH_CONFIG" using Suc.prems(1) by simp
    show "\<forall>m<j. probeResult.healthy (verifyRealConnection net node (n + 1 + m))"
      using Suc.prems(2) by (metis Suc_eq_plus1 add_Suc_shift Suc_less_eq)
    show "\<not> probeResult.healthy (verifyRealConnection net node (n + 1 + j))"
      using Suc.prems(3) by simp
  qed
  with step show ?case by simp
qed

lemma testStability_loop_stable:
  assumes "\<forall>m. i + m < REQUIRED_TESTS HEALTH_CONFIG
              \<longrightarrow> probeResult.healthy (verifyRealConnection net node (n + m))"
  shows "testStability_loop net node n i results =
           (Stable (REQUIRED_TESTS HEALTH_CONFIG)
              (average (results @ map (\<lambda>m. verifyRealConnection net node (n + m))
                                   [0..<REQUIRED_TESTS HEALTH_CONFIG - i])) 1,
            n + (REQUIRED_TESTS HEALTH_CONFIG - i))"
  using assms
proof (induction "REQUIRED_TESTS HEALTH_CONFIG - i" arbitrary: n i results)
  case 0
  then show ?case
    by (subst testStability_loop.simps) simp
next
  case (Suc d)
  have lt: "i < REQUIRED_TESTS HEALTH_CONFIG" using Suc.hyps(2) by simp
  have h0: "probeResult.healthy (verifyRealConnection net node n)"
    using Suc.prems lt by (metis add.right_neutral)
  have step: "testStability_loop net node n i results =
                testStability_loop net node (n + 1) (i + 1)
                  (results @ [verifyRealConnection net node n])"
    using lt h0 by (subst testStability_loop.simps) (simp add: Let_def)
  have d: "d = REQUIRED_TESTS HEALTH_CONFIG - (i + 1)" using Suc.hyps(2) by simp
  have rest: "\<forall>m. i + 1 + m < REQUIRED_TESTS HEALTH_CONFIG
              \<longrightarrow> probeResult.healthy (verifyRealConnection net node (n + 1 + m))"
    using Suc.prems by (metis add.assoc)
  have split: "map (\<lambda>m. verifyRealConnection net node (n + m)) [0..<REQUIRED_TESTS HEALTH_CONFIG - i]
      = verifyRealConnection net node n
          # map (\<lambda>m. verifyRealConnection net node (n + 1 + m)) [0..<REQUIRED_TESTS HEALTH_CONFIG - (i + 1)]"
  proof -
    have "[0..<REQUIRED_TESTS HEALTH_CONFIG - i] = 0 # map Suc [0..<REQUIRED_TESTS HEALTH_CONFIG - (i + 1)]"
      using lt by (metis Suc.hyps(2) d map_Suc_upt upt_conv_Cons zero_less_Suc)
    then show ?thesis by (simp add: comp_def)
  qed
  show ?case
    using Suc.hyps(1)[OF d rest, of "results @ [verifyRealConnection net node n]"] step split lt
    by simp
qed

lemma foldl_latency_sum:
  "foldl (\<lambda>sum r. sum + ToNumber (probeResult.latency r)) a rs
     = a + sum_list (map (\<lambda>r. ToNumber (probeResult.latency r)) rs)"
  by (induction rs arbitrary: a) auto

section \<open>The loop of the batch check\<close>

lemma Map_set_keys: "fst ` set (Map_set m k v) = insert k (fst ` set m)"
  by (induction m k v rule: Map_set.induct) auto

lemma checkNode_fetches: "fst (snd (checkNode net c n acc node)) = fetchesAfter net node n"
  by (simp add: checkNode_def fetchesAfter_def Let_def split: prod.splits stabilityResult.splits)

lemma checkNode_unhealthy:
  "unhealthyNodes (fst (checkNode net c n acc node)) =
     (if nodePasses net node n then unhealthyNodes c
      else insert (node.id node) (unhealthyNodes c))"
  by (simp add: checkNode_def nodePasses_def Let_def split: prod.splits stabilityResult.splits)

lemma checkNode_keys:
  "fst ` set (healthyNodes (fst (checkNode net c n acc node))) =
     (if nodePasses net node n then insert (node.id node) (fst ` set (healthyNodes c))
      else fst ` set (healthyNodes c))"
  by (simp add: checkNode_def nodePasses_def Let_def Map_set_keys
           split: prod.splits stabilityResult.splits)

lemma checkNode_stats:
  "checker.stats (fst (checkNode net c n acc node)) = bump (nodePasses net node n) (checker.stats c)"
  by (simp add: checkNode_def nodePasses_def Let_def split: prod.splits stabilityResult.splits)

lemma checkNode_acc:
  "\<exists>new. snd (snd (checkNode net c n acc node)) = acc @ new
         \<and> (new = [] \<or> (\<exists>s. new = [s] \<and> node_of s = node))"
  by (simp add: checkNode_def node_of_def Let_def split: prod.splits stabilityResult.splits)

lemma loop_Cons:
  "checkAllNodes_loop net c n acc (node # rest) =
     checkAllNodes_loop net (fst (checkNode net c n acc node)) (fetchesAfter net node n)
       (snd (snd (checkNode net c n acc node))) rest"
proof -
  obtain c1 n1 acc1 where e: "checkNode net c n acc node = (c1, n1, acc1)"
    by (cases "checkNode net c n acc node") auto
  have "n1 = fetchesAfter net node n"
    using checkNode_fetches [of net c n acc node] e by simp
  with e show ?thesis by simp
qed

lemma loop_total:
  "totalChecks (checker.stats (fst (checkAllNodes_loop net c n acc nodeList)))
     = totalChecks (checker.stats c) + length nodeList"
proof (induction nodeList arbitrary: c n acc)
  case Nil
  show ?case by simp
next
  case (Cons node rest)
  show ?case
    unfolding loop_Cons Cons.IH
    by (simp add: checkNode_stats bump_def)
qed

lemma loop_unhealthy_mono:
  "unhealthyNodes c \<subseteq> unhealthyNodes (fst (checkAllNodes_loop net c n acc nodeList))"
proof (induction nodeList arbitrary: c n acc)
  case Nil
  show ?case by simp
next
  case (Cons node rest)
  have "unhealthyNodes c \<subseteq> unhealthyNodes (fst (checkNode net c n acc node))"
    by (auto simp: checkNode_unhealthy)
  also have "\<dots> \<subseteq> unhealthyNodes (fst (checkAllNodes_loop net c n acc (node # rest)))"
    unfolding loop_Cons by (rule Cons.IH)
  finally show ?case .
qed

lemma loop_failed_recorded:
  "node.id ` set (failedNodes net n nodeList)
     \<subseteq> unhealthyNodes (fst (checkAllNodes_loop net c n acc nodeList))"
proof (induction nodeList arbitrary: c n acc)
  case Nil
  show ?case by simp
next
  case (Cons node rest)
  let ?c1 = "fst (checkNode net c n acc node)"
  let ?end = "fst (checkAllNodes_loop net c n acc (node # rest))"
  have rest: "node.id ` set (failedNodes net (fetchesAfter net node n) rest) \<subseteq> unhealthyNodes ?end"
    unfolding loop_Cons by (rule Cons.IH)
  have "unhealthyNodes ?c1 \<subseteq> unhealthyNodes ?end"
    unfolding loop_Cons by (rule loop_unhealthy_mono)
  then have here: "\<not> nodePasses net node n \<Longrightarrow> node.id node \<in> unhealthyNodes ?end"
    by (auto simp: checkNode_unhealthy)
  show ?case using rest here by auto
qed

lemma loop_keys_mono:
  "fst ` set (healthyNodes c)
     \<subseteq> fst ` set (healthyNodes (fst (checkAllNodes_loop net c n acc nodeList)))"
proof (induction nodeList arbitrary: c n acc)
  case Nil
  show ?case by simp
next
  case (Cons node rest)
  have "fst ` set (healthyNodes c) \<subseteq> fst ` set (healthyNodes (fst (checkNode net c n acc node)))"
    by (auto simp: checkNode_keys)
  also have "\<dots> \<subseteq> fst ` set (healthyNodes (fst (checkAllNodes_loop net c n acc (node # rest))))"
    unfolding loop_Cons by (rule Cons.IH)
  finally show ?case .
qed

lemma checkAllNodes_checker:
  "fst (snd (checkAllNodes net c n nodeList)) = fst (checkAllNodes_loop net c n [] nodeList)"
  by (simp add: checkAllNodes_def Let_def split: prod.splits)

lemma checkAllNodes_healthy:
  "checkResult.healthy (fst (checkAllNodes net c n nodeList))
     = sort_cmp (\<lambda>a b. score b - score a) (snd (snd (checkAllNodes_loop net c n [] nodeList)))"
  by (simp add: checkAllNodes_def Let_def split: prod.splits)

lemma checkAllNodes_total:
  "totalChecks (checkResult.stats (fst (checkAllNodes net c n nodeList)))
     = totalChecks (checker.stats (fst (checkAllNodes_loop net c n [] nodeList)))"
  by (simp add: checkAllNodes_def Let_def split: prod.splits)

section \<open>The sort\<close>

lemma set_insert_cmp: "set (insert_cmp cmp a bs) = insert a (set bs)"
  by (induction bs) auto

lemma set_sort_cmp: "set (sort_cmp cmp xs) = set xs"
  by (induction xs) (auto simp: set_insert_cmp)

lemma sorted_insert_cmp:
  assumes "sorted_wrt (\<lambda>a b. f b \<le> f a) bs"
  shows "sorted_wrt (\<lambda>a b. f b \<le> f a) (insert_cmp (\<lambda>a b. f b - f a) x bs)"
  using assms
proof (induction bs)
  case Nil
  show ?case by simp
next
  case (Cons b bs)
  show ?case
  proof (cases "f b - f x > 0")
    case True
    with Cons show ?thesis
      by (auto simp: set_insert_cmp)
  next
    case False
    then have "f b \<le> f x" by simp
    with Cons.prems show ?thesis
      by (auto intro: order_trans)
  qed
qed

lemma sorted_sort_cmp:
  "sorted_wrt (\<lambda>a b. f b \<le> f a) (sort_cmp (\<lambda>a b. f b - f a) xs)"
  by (induction xs) (simp_all add: sorted_insert_cmp)

lemma filter_insert_cmp_other:
  "f x \<noteq> s \<Longrightarrow> filter (\<lambda>y. f y = s) (insert_cmp cmp x bs) = filter (\<lambda>y. f y = s) bs"
  by (induction bs) auto

lemma filter_insert_cmp_same:
  assumes "sorted_wrt (\<lambda>a b. f b \<le> f a) bs"
  shows "filter (\<lambda>y. f y = f x) (insert_cmp (\<lambda>a b. f b - f a) x bs)
           = x # filter (\<lambda>y. f y = f x) bs"
  using assms
proof (induction bs)
  case Nil
  show ?case by simp
next
  case (Cons b bs)
  show ?case
  proof (cases "f b - f x > 0")
    case True
    then have "f b \<noteq> f x" by simp
    with True Cons show ?thesis by simp
  next
    case False
    then show ?thesis by simp
  qed
qed

lemma sort_cmp_stable:
  "filter (\<lambda>y. f y = s) (sort_cmp (\<lambda>a b. f b - f a) xs) = filter (\<lambda>y. f y = s) xs"
proof (induction xs)
  case Nil
  show ?case by simp
next
  case (Cons x xs)
  show ?case
  proof (cases "f x = s")
    case True
    then show ?thesis
      using Cons filter_insert_cmp_same [OF sorted_sort_cmp, of f x xs] by simp
  next
    case False
    then show ?thesis
      using Cons by (simp add: filter_insert_cmp_other)
  qed
qed

section \<open>What the loop collects\<close>

lemma loop_acc:
  "\<exists>new. snd (snd (checkAllNodes_loop net c n acc nodeList)) = acc @ new
         \<and> subseq (map node_of new) nodeList"
proof (induction nodeList arbitrary: c n acc)
  case Nil
  show ?case by simp
next
  case (Cons node rest)
  obtain new1 where n1: "snd (snd (checkNode net c n acc node)) = acc @ new1"
      and s1: "new1 = [] \<or> (\<exists>s. new1 = [s] \<and> node_of s = node)"
    using checkNode_acc [of net c n acc node] by blast
  obtain new2 where n2:
      "snd (snd (checkAllNodes_loop net (fst (checkNode net c n acc node))
                   (fetchesAfter net node n) (acc @ new1) rest)) = (acc @ new1) @ new2"
      and s2: "subseq (map node_of new2) rest"
    using Cons.IH by blast
  have "subseq (map node_of (new1 @ new2)) (node # rest)"
    using s1 s2 by auto
  with n1 n2 show ?case
    unfolding loop_Cons by auto
qed

lemma calculateScore_bound:
  assumes "1 \<le> l"
  shows "calculateScore (of_int l) avg \<le> 119"
proof -
  have "(1::rat) \<le> of_int l" using assms by simp
  then show ?thesis
    by (simp add: calculateScore_def Let_def max_def)
qed

lemma checkNode_scored_ok:
  assumes "\<forall>s \<in> set acc. scored_ok s"
  shows "\<forall>s \<in> set (snd (snd (checkNode net c n acc node))). scored_ok s"
proof (cases "testStability net node n")
  case (Pair st n1)
  show ?thesis
  proof (cases st)
    case (Unstable attempt reason)
    with Pair assms show ?thesis by (simp add: checkNode_def)
  next
    case (Stable attempts avg rate)
    show ?thesis
    proof (cases "probeResult.healthy (verifyRealConnection net node n1)")
      case False
      with Pair Stable assms show ?thesis by (simp add: checkNode_def)
    next
      case True
      then obtain l where "probeResult.latency (verifyRealConnection net node n1) = Some l"
          "1 \<le> l" "l \<le> 150"
        using healthy_latency by blast
      with Pair Stable True assms show ?thesis
        by (simp add: checkNode_def scored_ok_def calculateScore_bound)
    qed
  qed
qed

lemma loop_scored_ok:
  assumes "\<forall>s \<in> set acc. scored_ok s"
  shows "\<forall>s \<in> set (snd (snd (checkAllNodes_loop net c n acc nodeList))). scored_ok s"
  using assms
proof (induction nodeList arbitrary: c n acc)
  case Nil
  then show ?case by simp
next
  case (Cons node rest)
  show ?case
    unfolding loop_Cons
    by (rule Cons.IH) (rule checkNode_scored_ok [OF Cons.prems])
qed

section \<open>The registry\<close>

lemma Map_set_all:
  assumes "P v" and "\<forall>x \<in> set m. P (snd x)"
  shows "\<forall>x \<in> set (Map_set m k v). P (snd x)"
  using assms by (induction m k v rule: Map_set.induct) auto

lemma checkNode_entries_ok:
  assumes "\<forall>x \<in> set (healthyNodes c). entry_ok (snd x)"
  shows "\<forall>x \<in> set (healthyNodes (fst (checkNode net c n acc node))). entry_ok (snd x)"
proof (cases "testStability net node n")
  case (Pair st n1)
  show ?thesis
  proof (cases st)
    case (Unstable attempt reason)
    with Pair assms show ?thesis by (simp add: checkNode_def)
  next
    case (Stable attempts avg rate)
    show ?thesis
    proof (cases "probeResult.healthy (verifyRealConnection net node n1)")
      case False
      with Pair Stable assms show ?thesis by (simp add: checkNode_def)
    next
      case True
      let ?e = "\<lparr>node.id = node.id node, url = url node, extra = extra node,
                  health = verifyRealConnection net node n1,
                  stability = Stable attempts avg rate\<rparr>"
      have "entry_ok ?e"
        using True healthy_latency [OF True] by (simp add: entry_ok_def)
      moreover have "healthyNodes (fst (checkNode net c n acc node))
                       = Map_set (healthyNodes c) (node.id node) ?e"
        using Pair Stable True by (simp add: checkNode_def Let_def)
      ultimately show ?thesis
        using assms Map_set_all [of entry_ok ?e "healthyNodes c" "node.id node"] by simp
    qed
  qed
qed

lemma loop_entries_ok:
  assumes "\<forall>x \<in> set (healthyNodes c). entry_ok (snd x)"
  shows "\<forall>x \<in> set (healthyNodes (fst (checkAllNodes_loop net c n acc nodeList))). entry_ok (snd x)"
  using assms
proof (induction nodeList arbitrary: c n acc)
  case Nil
  then show ?case by simp
next
  case (Cons node rest)
  show ?case
    unfolding loop_Cons
    by (rule Cons.IH) (rule checkNode_entries_ok [OF Cons.prems])
qed

lemma reachable_entries_ok:
  assumes "reachable c"
  shows "\<forall>x \<in> set (healthyNodes c). entry_ok (snd x)"
  using assms
proof (induction rule: reachable.induct)
  case reachable_new
  show ?case by (simp add: constructor_def)
next
  case (reachable_run c net n nodeList)
  show ?case
    unfolding checkAllNodes_checker by (rule loop_entries_ok [OF reachable_run.IH])
qed

lemma getBestNode_loop_min:
  assumes "\<forall>x \<in> set es. entry_ok (snd x)" and "1 \<le> h"
  shows "(getBestNode_loop es (Some b) (Some h) = Some b
            \<and> (\<forall>x \<in> set es. h \<le> ToNumber (probeResult.latency (health (snd x)))))
         \<or> (\<exists>pre k e post. es = pre @ (k, e) # post
              \<and> getBestNode_loop es (Some b) (Some h) = Some e
              \<and> ToNumber (probeResult.latency (health e)) < h
              \<and> (\<forall>x \<in> set pre. ToNumber (probeResult.latency (health e))
                                   < ToNumber (probeResult.latency (health (snd x))))
              \<and> (\<forall>x \<in> set post. ToNumber (probeResult.latency (health e))
                                   \<le> ToNumber (probeResult.latency (health (snd x)))))"
  using assms
proof (induction es arbitrary: b h)
  case Nil
  show ?case by simp
next
  case (Cons x rest)
  obtain k e where x: "x = (k, e)" by (cases x) auto
  let ?lat = "\<lambda>y. ToNumber (probeResult.latency (health y))"
  obtain l where l: "probeResult.latency (health e) = Some l" "1 \<le> l"
    using Cons.prems(1) x by (auto simp: entry_ok_def)
  have rest_ok: "\<forall>x \<in> set rest. entry_ok (snd x)" using Cons.prems(1) by simp
  have hne: "Some h \<noteq> Some (- 1)" using Cons.prems(2) by simp
  show ?case
  proof (cases "l < h")
    case True
    have step: "getBestNode_loop (x # rest) (Some b) (Some h)
                  = getBestNode_loop rest (Some e) (Some l)"
      using True l x by simp
    from Cons.IH [OF rest_ok l(2), of e]
    show ?thesis
    proof (elim disjE conjE exE)
      assume r: "getBestNode_loop rest (Some e) (Some l) = Some e"
        and a: "\<forall>y \<in> set rest. l \<le> ?lat (snd y)"
      have "x # rest = [] @ (k, e) # rest" using x by simp
      moreover have "getBestNode_loop (x # rest) (Some b) (Some h) = Some e"
        using step r by simp
      moreover have "?lat e < h" using True l by simp
      moreover have "\<forall>y \<in> set rest. ?lat e \<le> ?lat (snd y)" using a l by simp
      ultimately show ?thesis by (metis empty_iff empty_set)
    next
      fix pre k' e' post
      assume d: "rest = pre @ (k', e') # post"
        and r: "getBestNode_loop rest (Some e) (Some l) = Some e'"
        and lt: "?lat e' < l"
        and p: "\<forall>y \<in> set pre. ?lat e' < ?lat (snd y)"
        and q: "\<forall>y \<in> set post. ?lat e' \<le> ?lat (snd y)"
      have "x # rest = (x # pre) @ (k', e') # post" using d by simp
      moreover have "getBestNode_loop (x # rest) (Some b) (Some h) = Some e'"
        using step r by simp
      moreover have "?lat e' < h" using lt True by simp
      moreover have "\<forall>y \<in> set (x # pre). ?lat e' < ?lat (snd y)"
        using p lt l x by simp
      ultimately show ?thesis using q by blast
    qed
  next
    case False
    have step: "getBestNode_loop (x # rest) (Some b) (Some h)
                  = getBestNode_loop rest (Some b) (Some h)"
      using False l x hne by simp
    from Cons.IH [OF rest_ok Cons.prems(2), of b]
    show ?thesis
    proof (elim disjE conjE exE)
      assume r: "getBestNode_loop rest (Some b) (Some h) = Some b"
        and a: "\<forall>y \<in> set rest. h \<le> ?lat (snd y)"
      have "\<forall>y \<in> set (x # rest). h \<le> ?lat (snd y)"
        using a False l x by simp
      with step r show ?thesis by simp
    next
      fix pre k' e' post
      assume d: "rest = pre @ (k', e') # post"
        and r: "getBestNode_loop rest (Some b) (Some h) = Some e'"
        and lt: "?lat e' < h"
        and p: "\<forall>y \<in> set pre. ?lat e' < ?lat (snd y)"
        and q: "\<forall>y \<in> set post. ?lat e' \<le> ?lat (snd y)"
      have "x # rest = (x # pre) @ (k', e') # post" using d by simp
      moreover have "getBestNode_loop (x # rest) (Some b) (Some h) = Some e'"
        using step r by simp
      moreover have "\<forall>y \<in> set (x # pre). ?lat e' < ?lat (snd y)"
        using p lt False l x by simp
      ultimately show ?thesis using q lt by blast
    qed
  qed
qed

lemma getBestNode_loop_first:
  assumes "\<forall>x \<in> set es. entry_ok (snd x)" and "es \<noteq> []"
  shows "\<exists>pre k e post. es = pre @ (k, e) # post
              \<and> getBestNode_loop es None (Some (- 1)) = Some e
              \<and> (\<forall>x \<in> set pre. ToNumber (probeResult.latency (health e))
                                   < ToNumber (probeResult.latency (health (snd x))))
              \<and> (\<forall>x \<in> set post. ToNumber (probeResult.latency (health e))
                                   \<le> ToNumber (probeResult.latency (health (snd x))))"
proof -
  let ?lat = "\<lambda>y. ToNumber (probeResult.latency (health y))"
  obtain k e rest where es: "es = (k, e) # rest"
    using assms(2) by (cases es) auto
  obtain l where l: "probeResult.latency (health e) = Some l" "1 \<le> l"
    using assms(1) es by (auto simp: entry_ok_def)
  have rest_ok: "\<forall>x \<in> set rest. entry_ok (snd x)" using assms(1) es by simp
  have step: "getBestNode_loop es None (Some (- 1)) = getBestNode_loop rest (Some e) (Some l)"
    using es l by simp
  from getBestNode_loop_min [OF rest_ok l(2), of e]
  show ?thesis
  proof (elim disjE conjE exE)
    assume r: "getBestNode_loop rest (Some e) (Some l) = Some e"
      and a: "\<forall>y \<in> set rest. l \<le> ?lat (snd y)"
    have "es = [] @ (k, e) # rest" using es by simp
    moreover have "getBestNode_loop es None (Some (- 1)) = Some e"
      using step r by simp
    moreover have "\<forall>y \<in> set rest. ?lat e \<le> ?lat (snd y)" using a l by simp
    ultimately show ?thesis by (metis empty_iff empty_set)
  next
    fix pre k' e' post
    assume d: "rest = pre @ (k', e') # post"
      and r: "getBestNode_loop rest (Some e) (Some l) = Some e'"
      and lt: "?lat e' < l"
      and p: "\<forall>y \<in> set pre. ?lat e' < ?lat (snd y)"
      and q: "\<forall>y \<in> set post. ?lat e' \<le> ?lat (snd y)"
    have "es = ((k, e) # pre) @ (k', e') # post" using d es by simp
    moreover have "getBestNode_loop es None (Some (- 1)) = Some e'"
      using step r by simp
    moreover have "\<forall>y \<in> set ((k, e) # pre). ?lat e' < ?lat (snd y)"
      using p lt l by simp
    ultimately show ?thesis using q by blast
  qed
qed

section \<open>Rounding to binary64\<close>

lemma log2floor_le: "n < 2 ^ Suc k \<Longrightarrow> log2floor n \<le> k"
proof (induction k arbitrary: n)
  case 0
  then show ?case by (subst log2floor.simps) simp
next
  case (Suc k)
  show ?case
  proof (cases "n < 2")
    case True
    then show ?thesis by (subst log2floor.simps) simp
  next
    case False
    have "n div 2 < 2 ^ Suc k" using Suc.prems by auto
    then have "log2floor (n div 2) \<le> k" by (rule Suc.IH)
    with False show ?thesis by (subst log2floor.simps) simp
  qed
qed

lemma pow2_powi: "pow2 e = 2 powi e"
  by (simp add: pow2_def power_int_def field_simps)

lemma pow2_pos: "0 < pow2 e"
  by (simp add: pow2_powi)

lemma pow2_inverse: "pow2 (52 - e) * pow2 (e - 52) = 1"
proof -
  have "pow2 (52 - e) * pow2 (e - 52) = 2 powi ((52 - e) + (e - 52))"
    unfolding pow2_powi by (rule power_int_add [symmetric]) simp
  then show ?thesis by simp
qed

lemma round_half_even_near: "\<bar>of_int (round_half_even x) - x\<bar> \<le> 1 / 2"
proof -
  define f where "f = \<lfloor>x\<rfloor>"
  have b: "of_int f \<le> x" "x < of_int f + 1"
    unfolding f_def by linarith+
  consider "x - of_int f < 1 / 2" | "x - of_int f > 1 / 2" | "x - of_int f = 1 / 2"
    by linarith
  then show ?thesis
  proof cases
    case 1
    then have "round_half_even x = f"
      by (simp add: round_half_even_def Let_def f_def)
    with 1 b show ?thesis by simp
  next
    case 2
    then have "round_half_even x = f + 1"
      by (simp add: round_half_even_def Let_def f_def)
    with 2 b show ?thesis by simp
  next
    case 3
    then have "round_half_even x = f \<or> round_half_even x = f + 1"
      by (simp add: round_half_even_def Let_def f_def)
    with 3 show ?thesis by auto
  qed
qed

lemma round_half_even_of_int: "round_half_even (of_int k) = k"
  by (simp add: round_half_even_def)

lemma to_double_ge_1:
  assumes "1 \<le> q"
  shows "to_double q
           = of_int (round_half_even (q * pow2 (52 - int (log2floor (nat \<lfloor>q\<rfloor>)))))
               * pow2 (int (log2floor (nat \<lfloor>q\<rfloor>)) - 52)"
  using assms by (simp add: to_double_def exponent_of_def Let_def max_def)

lemma to_double_near:
  assumes "1 \<le> q" and "q < 256"
  shows "\<bar>to_double q - q\<bar> \<le> 1 / 2 ^ 46"
proof -
  define e where "e = int (log2floor (nat \<lfloor>q\<rfloor>))"
  define m where "m = round_half_even (q * pow2 (52 - e))"
  have "nat \<lfloor>q\<rfloor> < 2 ^ Suc 7"
    using assms by (simp add: nat_less_iff floor_less_iff)
  then have e7: "e \<le> 7"
    unfolding e_def using log2floor_le [of "nat \<lfloor>q\<rfloor>" 7] by simp
  have td: "to_double q = of_int m * pow2 (e - 52)"
    unfolding m_def e_def by (rule to_double_ge_1 [OF assms(1)])
  have "to_double q - q = (of_int m - q * pow2 (52 - e)) * pow2 (e - 52)"
    unfolding td using pow2_inverse [of e] by (simp add: algebra_simps)
  then have "\<bar>to_double q - q\<bar> = \<bar>of_int m - q * pow2 (52 - e)\<bar> * pow2 (e - 52)"
    using pow2_pos [of "e - 52"] by (simp add: abs_mult)
  also have "\<dots> \<le> 1 / 2 * pow2 (e - 52)"
    unfolding m_def using round_half_even_near pow2_pos [of "e - 52"]
    by (intro mult_right_mono) simp_all
  also have "pow2 (e - 52) \<le> pow2 (- 45)"
    unfolding pow2_powi using e7 by (intro power_int_increasing) simp_all
  finally have "\<bar>to_double q - q\<bar> \<le> 1 / 2 * pow2 (- 45)" by simp
  then show ?thesis by (simp add: pow2_def)
qed

lemma to_double_of_int:
  assumes "1 \<le> k" and "k < 2 ^ 53"
  shows "to_double (of_int k) = of_int k"
proof -
  define e where "e = int (log2floor (nat k))"
  have "nat k < 2 ^ Suc 52"
    using assms by (simp add: nat_less_iff)
  then have e52: "e \<le> 52" and e0: "0 \<le> e"
    unfolding e_def using log2floor_le [of "nat k" 52] by simp_all
  have sc: "(of_int k :: rat) * pow2 (52 - e) = of_int (k * 2 ^ nat (52 - e))"
    using e52 by (simp add: pow2_def)
  have "to_double (of_int k)
          = of_int (round_half_even (of_int k * pow2 (52 - e))) * pow2 (e - 52)"
    using to_double_ge_1 [of "of_int k"] assms(1) by (simp add: e_def)
  also have "\<dots> = of_int (k * 2 ^ nat (52 - e)) * pow2 (e - 52)"
    unfolding sc round_half_even_of_int ..
  also have "\<dots> = of_int k * pow2 (52 - e) * pow2 (e - 52)"
    unfolding sc ..
  also have "\<dots> = of_int k * (pow2 (52 - e) * pow2 (e - 52))"
    by (simp only: mult.assoc)
  finally show ?thesis by (simp add: pow2_inverse)
qed

lemma healthRate_rounds_as_binary64:
  "toFixed1 (times_number (divide_number 23 80) 100) = ''28.7''"
  by code_simp

lemma sum_list_bounds:
  assumes "\<forall>x \<in> set xs. (1::int) \<le> x \<and> x \<le> 150"
  shows "int (length xs) \<le> sum_list xs \<and> sum_list xs \<le> 150 * int (length xs)"
  using assms by (induction xs) auto

section \<open>Claims on the prober\<close>

text \<open>
  Claim C4. \<open>validateResponse\<close> accepts a probe exactly when its latency is at most
  the configured maximum of 150 ms, at least 1 ms, and its status, when there is one
  (a non-zero status), is below 400. Latency 0 is never valid, and with no status only
  the two latency rules decide.
\<close>

theorem validateResponse_iff:
  "(validateResponse resp lat \<longleftrightarrow>
      lat \<le> MAX_LATENCY HEALTH_CONFIG \<and> 1 \<le> lat
      \<and> (response.status resp \<noteq> 0 \<longrightarrow> response.status resp < 400))
   \<and> MAX_LATENCY HEALTH_CONFIG = 150
   \<and> \<not> validateResponse resp 0
   \<and> (response.status resp = 0 \<longrightarrow> (validateResponse resp lat \<longleftrightarrow> 1 \<le> lat \<and> lat \<le> 150))"
  by (auto simp: validateResponse_def HEALTH_CONFIG_def)

text \<open>Instances of C4 on both sides of each bound.\<close>

theorem validateResponse_iff_witness:
  "validateResponse \<lparr>response.status = 200\<rparr> 150
   \<and> validateResponse \<lparr>response.status = 0\<rparr> 1
   \<and> \<not> validateResponse \<lparr>response.status = 404\<rparr> 20
   \<and> \<not> validateResponse \<lparr>response.status = 200\<rparr> 151
   \<and> \<not> validateResponse \<lparr>response.status = 0\<rparr> 0"
  using validateResponse_iff [of "\<lparr>response.status = 200\<rparr>" 150]
    validateResponse_iff [of "\<lparr>response.status = 0\<rparr>" 1]
    validateResponse_iff [of "\<lparr>response.status = 404\<rparr>" 20]
    validateResponse_iff [of "\<lparr>response.status = 200\<rparr>" 151]
  by simp

section \<open>Claims on the stability test\<close>

text \<open>
  Claim C5. If attempt \<open>j + 1\<close> (at most \<open>REQUIRED_TESTS\<close>) is the first unhealthy one,
  \<open>testStability\<close> returns the unstable result with \<open>attempt = j + 1\<close> and as reason
  that attempt's error message, or the generic message when there is none or it is empty;
  exactly \<open>j + 1\<close> fetches have been issued.
\<close>

theorem testStability_short_circuit:
  assumes "j < REQUIRED_TESTS HEALTH_CONFIG"
    and "\<forall>m<j. probeResult.healthy (verifyRealConnection net node (n + m))"
    and "\<not> probeResult.healthy (verifyRealConnection net node (n + j))"
  shows "testStability net node n =
           (Unstable (j + 1)
              (case error (verifyRealConnection net node (n + j)) of
                 None \<Rightarrow> CONNECTION_FAILED
               | Some msg \<Rightarrow> if msg = [] then CONNECTION_FAILED else msg),
            n + j + 1)"
  using testStability_loop_unstable [of 0 j net node n "[]"] assms
  by (simp add: testStability_def reason_of_def)

text \<open>Instance of C5: healthy, healthy, timed out gives attempt 3 after 3 fetches.\<close>

theorem testStability_short_circuit_witness:
  "probeResult.healthy (verifyRealConnection ex_net_third_fails ex_nodeA 0)
   \<and> probeResult.healthy (verifyRealConnection ex_net_third_fails ex_nodeA 1)
   \<and> \<not> probeResult.healthy (verifyRealConnection ex_net_third_fails ex_nodeA 2)
   \<and> testStability ex_net_third_fails ex_nodeA 0
        = (Unstable 3 ''The operation was aborted'', 3)"
proof -
  have h0: "probeResult.healthy (verifyRealConnection ex_net_third_fails ex_nodeA 0)"
    by code_simp
  have h1: "probeResult.healthy (verifyRealConnection ex_net_third_fails ex_nodeA 1)"
    by code_simp
  have h2: "\<not> probeResult.healthy (verifyRealConnection ex_net_third_fails ex_nodeA 2)"
    by code_simp
  have bound: "(2::nat) < REQUIRED_TESTS HEALTH_CONFIG"
    by (simp add: HEALTH_CONFIG_def)
  have before: "\<forall>m<2. probeResult.healthy (verifyRealConnection ex_net_third_fails ex_nodeA (0 + m))"
    by (simp add: numeral_2_eq_2 All_less_Suc verifyRealConnection_def ex_net_third_fails_def
          validateResponse_def HEALTH_CONFIG_def)
  have failing: "\<not> probeResult.healthy (verifyRealConnection ex_net_third_fails ex_nodeA (0 + 2))"
    by code_simp
  have e: "error (verifyRealConnection ex_net_third_fails ex_nodeA (0 + 2))
             = Some ''The operation was aborted''"
    by code_simp
  have "testStability ex_net_third_fails ex_nodeA 0
          = (Unstable 3 ''The operation was aborted'', 3)"
    using testStability_short_circuit [OF bound before failing] e
    by simp
  with h0 h1 h2 show ?thesis by simp
qed

text \<open>
  Claim C6 as stated fails on the average: for three healthy attempts of 100, 100 and
  101 ms the returned \<open>avgLatency\<close> is the binary64 value next to \<open>301 / 3\<close>, not
  the arithmetic mean \<open>301 / 3\<close> itself.
\<close>

theorem average_not_exact_mean_counterexample:
  "probeResult.healthy (verifyRealConnection ex_net_uneven ex_nodeA 0)
   \<and> probeResult.healthy (verifyRealConnection ex_net_uneven ex_nodeA 1)
   \<and> probeResult.healthy (verifyRealConnection ex_net_uneven ex_nodeA 2)
   \<and> probeResult.latency (verifyRealConnection ex_net_uneven ex_nodeA 0) = Some 100
   \<and> probeResult.latency (verifyRealConnection ex_net_uneven ex_nodeA 1) = Some 100
   \<and> probeResult.latency (verifyRealConnection ex_net_uneven ex_nodeA 2) = Some 101
   \<and> testStability ex_net_uneven ex_nodeA 0
        = (Stable 3 (7060330665825621 / 70368744177664) 1, 3)
   \<and> (7060330665825621 / 70368744177664 :: rat) \<noteq> (100 + 100 + 101) / 3"
  by code_simp

text \<open>
  Claim C6, amended. When all \<open>REQUIRED_TESTS\<close> attempts are healthy, \<open>testStability\<close>
  returns the stable result with \<open>attempts = REQUIRED_TESTS\<close>, success rate 1, and as
  average the arithmetic mean of the attempts' latencies (none of which is null)
  rounded to the nearest binary64 value: it differs from the mean by at most \<open>2^(- 46)\<close>
  and is the mean itself whenever the number of attempts divides the latency sum.
\<close>

theorem testStability_all_healthy_rounded_mean:
  assumes "\<forall>m<REQUIRED_TESTS HEALTH_CONFIG.
             probeResult.healthy (verifyRealConnection net node (n + m))"
  shows "testStability net node n =
           (Stable (REQUIRED_TESTS HEALTH_CONFIG)
              (to_double
                 (of_int (sum_list (map (\<lambda>m. ToNumber (probeResult.latency
                                        (verifyRealConnection net node (n + m))))
                                   [0..<REQUIRED_TESTS HEALTH_CONFIG]))
                    / of_nat (REQUIRED_TESTS HEALTH_CONFIG)))
              1,
            n + REQUIRED_TESTS HEALTH_CONFIG)
         \<and> (\<forall>m<REQUIRED_TESTS HEALTH_CONFIG.
               probeResult.latency (verifyRealConnection net node (n + m)) \<noteq> None)
         \<and> \<bar>to_double
                 (of_int (sum_list (map (\<lambda>m. ToNumber (probeResult.latency
                                        (verifyRealConnection net node (n + m))))
                                   [0..<REQUIRED_TESTS HEALTH_CONFIG]))
                    / of_nat (REQUIRED_TESTS HEALTH_CONFIG))
              - of_int (sum_list (map (\<lambda>m. ToNumber (probeResult.latency
                                        (verifyRealConnection net node (n + m))))
                                   [0..<REQUIRED_TESTS HEALTH_CONFIG]))
                    / of_nat (REQUIRED_TESTS HEALTH_CONFIG)\<bar> \<le> 1 / 2 ^ 46
         \<and> (int (REQUIRED_TESTS HEALTH_CONFIG)
                dvd sum_list (map (\<lambda>m. ToNumber (probeResult.latency
                                        (verifyRealConnection net node (n + m))))
                                   [0..<REQUIRED_TESTS HEALTH_CONFIG])
              \<longrightarrow> to_double
                 (of_int (sum_list (map (\<lambda>m. ToNumber (probeResult.latency
                                        (verifyRealConnection net node (n + m))))
                                   [0..<REQUIRED_TESTS HEALTH_CONFIG]))
                    / of_nat (REQUIRED_TESTS HEALTH_CONFIG))
               = of_int (sum_list (map (\<lambda>m. ToNumber (probeResult.latency
                                        (verifyRealConnection net node (n + m))))
                                   [0..<REQUIRED_TESTS HEALTH_CONFIG]))
                    / of_nat (REQUIRED_TESTS HEALTH_CONFIG))"
proof -
  define R where "R = REQUIRED_TESTS HEALTH_CONFIG"
  define ls where "ls = map (\<lambda>m. ToNumber (probeResult.latency
                                 (verifyRealConnection net node (n + m)))) [0..<R]"
  define q :: rat where "q = of_int (sum_list ls) / of_nat R"
  have R3: "R = 3" by (simp add: R_def HEALTH_CONFIG_def)
  have hyp: "\<forall>m<R. probeResult.healthy (verifyRealConnection net node (n + m))"
    using assms by (simp add: R_def)
  have run: "testStability net node n =
          (Stable R (average (map (\<lambda>m. verifyRealConnection net node (n + m)) [0..<R])) 1,
           n + R)"
    using testStability_loop_stable [of 0 net node n "[]"] assms
    by (simp add: testStability_def R_def)
  have avg: "average (map (\<lambda>m. verifyRealConnection net node (n + m)) [0..<R]) = to_double q"
    by (simp add: average_def foldl_latency_sum comp_def q_def ls_def)
  have some: "\<forall>m<R. probeResult.latency (verifyRealConnection net node (n + m)) \<noteq> None"
    using hyp healthy_latency by fastforce
  have range: "\<forall>x \<in> set ls. 1 \<le> x \<and> x \<le> 150"
  proof
    fix x
    assume "x \<in> set ls"
    then obtain m where m: "m < R"
        and x: "x = ToNumber (probeResult.latency (verifyRealConnection net node (n + m)))"
      by (auto simp: ls_def)
    obtain l where "probeResult.latency (verifyRealConnection net node (n + m)) = Some l"
        "1 \<le> l" "l \<le> 150"
      using healthy_latency hyp m by blast
    with x show "1 \<le> x \<and> x \<le> 150" by simp
  qed
  have len: "length ls = R" by (simp add: ls_def)
  have sb: "int R \<le> sum_list ls" "sum_list ls \<le> 150 * int R"
    using sum_list_bounds [OF range] len by simp_all
  have q1: "1 \<le> q" and q150: "q \<le> 150"
    using sb R3 by (simp_all add: q_def)
  have near: "\<bar>to_double q - q\<bar> \<le> 1 / 2 ^ 46"
    using q1 q150 by (intro to_double_near) simp_all
  have exact: "int R dvd sum_list ls \<longrightarrow> to_double q = q"
  proof
    assume "int R dvd sum_list ls"
    then obtain k where k: "sum_list ls = int R * k" ..
    have qk: "q = of_int k" using k R3 by (simp add: q_def)
    have "1 \<le> k" "k \<le> 150" using q1 q150 unfolding qk by simp_all
    then have "to_double (of_int k) = of_int k"
      by (intro to_double_of_int) simp_all
    then show "to_double q = q" by (simp add: qk)
  qed
  show ?thesis
    using run avg some near exact
    unfolding q_def ls_def R_def by simp
qed

text \<open>Instance of C6: latencies 100, 110, 90 average to 100, exactly.\<close>

theorem testStability_all_healthy_rounded_mean_witness:
  "probeResult.healthy (verifyRealConnection ex_net_steady ex_nodeA 0)
   \<and> probeResult.healthy (verifyRealConnection ex_net_steady ex_nodeA 1)
   \<and> probeResult.healthy (verifyRealConnection ex_net_steady ex_nodeA 2)
   \<and> probeResult.latency (verifyRealConnection ex_net_steady ex_nodeA 0) = Some 100
   \<and> probeResult.latency (verifyRealConnection ex_net_steady ex_nodeA 1) = Some 110
   \<and> probeResult.latency (verifyRealConnection ex_net_steady ex_nodeA 2) = Some 90
   \<and> testStability ex_net_steady ex_nodeA 0 = (Stable 3 100 1, 3)"
proof -
  have h: "probeResult.healthy (verifyRealConnection ex_net_steady ex_nodeA 0)"
      "probeResult.healthy (verifyRealConnection ex_net_steady ex_nodeA 1)"
      "probeResult.healthy (verifyRealConnection ex_net_steady ex_nodeA 2)"
    by code_simp+
  have l: "probeResult.latency (verifyRealConnection ex_net_steady ex_nodeA 0) = Some 100"
      "probeResult.latency (verifyRealConnection ex_net_steady ex_nodeA 1) = Some 110"
      "probeResult.latency (verifyRealConnection ex_net_steady ex_nodeA 2) = Some 90"
    by code_simp+
  have r: "REQUIRED_TESTS HEALTH_CONFIG = 3"
    by (simp add: HEALTH_CONFIG_def)
  have all: "\<forall>m<REQUIRED_TESTS HEALTH_CONFIG.
               probeResult.healthy (verifyRealConnection ex_net_steady ex_nodeA (0 + m))"
    by (simp add: r numeral_3_eq_3 All_less_Suc verifyRealConnection_def ex_net_steady_def
          validateResponse_def HEALTH_CONFIG_def)
  have mean: "of_int (sum_list (map (\<lambda>m. ToNumber (probeResult.latency
                                        (verifyRealConnection ex_net_steady ex_nodeA (0 + m))))
                                   [0..<REQUIRED_TESTS HEALTH_CONFIG]))
                 / of_nat (REQUIRED_TESTS HEALTH_CONFIG) = (100 :: rat)"
    by (simp add: r numeral_3_eq_3 verifyRealConnection_def ex_net_steady_def)
  have rounded: "to_double 100 = 100"
    by code_simp
  have "testStability ex_net_steady ex_nodeA 0 = (Stable 3 100 1, 3)"
    using testStability_all_healthy_rounded_mean [OF all]
    unfolding mean rounded
    by (simp add: r)
  with h l show ?thesis by simp
qed

section \<open>Claims on the score\<close>


section \<open>Claims on the batch check\<close>

text \<open>
  Claim C1, evaluated on the code. On a new checker and the empty list the returned
  list is empty and no error is raised, but the health rate is the text \<open>NaN%\<close>,
  not \<open>0.0%\<close>: the source divides \<open>0\<close> by \<open>0\<close> without a special case.
\<close>

theorem checkAllNodes_empty_rate:
  "checkResult.healthy (fst (checkAllNodes net constructor n [])) = []
   \<and> healthRate (checkResult.stats (fst (checkAllNodes net constructor n []))) = ''NaN%''
   \<and> healthRate (checkResult.stats (fst (checkAllNodes net constructor n []))) \<noteq> ''0.0%''"
  by (simp add: checkAllNodes_def constructor_def divide_number_def toFixed1_def)

text \<open>
  Claim C2 as stated fails: node A is registered healthy by a first call; in a second
  call it fails, and its identifier is still a key of the healthy map afterwards.
\<close>

theorem failed_node_stays_healthy_counterexample:
  "snd (snd (checkAllNodes ex_net_then_down constructor 0 [ex_nodeA])) = 4
   \<and> ex_nodeA \<in> set (failedNodes ex_net_then_down 4 [ex_nodeA])
   \<and> node.id ex_nodeA
        \<in> fst ` set (healthyNodes
             (fst (snd (checkAllNodes ex_net_then_down ex_checker_after_A 4 [ex_nodeA]))))"
  by code_simp

text \<open>
  Claim C2, amended. Every node that fails during a call has its identifier in the
  unhealthy set after the call, and the call removes nothing from the healthy map:
  every identifier that was a key of the healthy map before the call is one after it.
\<close>

theorem failed_nodes_recorded:
  "(\<forall>node \<in> set (failedNodes net n nodeList).
      node.id node \<in> unhealthyNodes (fst (snd (checkAllNodes net c n nodeList))))
   \<and> (\<forall>k \<in> fst ` set (healthyNodes c).
      k \<in> fst ` set (healthyNodes (fst (snd (checkAllNodes net c n nodeList)))))"
  using loop_failed_recorded [of net n nodeList c "[]"] loop_keys_mono [of c net n "[]" nodeList]
  unfolding checkAllNodes_checker by blast

theorem failed_nodes_recorded_witness:
  "ex_nodeA \<in> set (failedNodes ex_net_then_down 4 [ex_nodeA])
   \<and> ''A'' \<in> fst ` set (healthyNodes ex_checker_after_A)
   \<and> ''A'' \<in> unhealthyNodes
        (fst (snd (checkAllNodes ex_net_then_down ex_checker_after_A 4 [ex_nodeA])))
   \<and> ''A'' \<in> fst ` set (healthyNodes
        (fst (snd (checkAllNodes ex_net_then_down ex_checker_after_A 4 [ex_nodeA]))))"
proof -
  have f: "ex_nodeA \<in> set (failedNodes ex_net_then_down 4 [ex_nodeA])"
    by code_simp
  have k: "''A'' \<in> fst ` set (healthyNodes ex_checker_after_A)"
    by code_simp
  have i: "node.id ex_nodeA = ''A''"
    by (simp add: ex_nodeA_def)
  note t = failed_nodes_recorded [of ex_net_then_down 4 "[ex_nodeA]" ex_checker_after_A]
  have u: "node.id ex_nodeA \<in> unhealthyNodes
        (fst (snd (checkAllNodes ex_net_then_down ex_checker_after_A 4 [ex_nodeA])))"
    using t f by blast
  have h: "''A'' \<in> fst ` set (healthyNodes
        (fst (snd (checkAllNodes ex_net_then_down ex_checker_after_A 4 [ex_nodeA]))))"
    using t k by blast
  show ?thesis
    using f k u h by (simp only: i simp_thms)
qed

text \<open>
  Claim C3 as stated fails: the second call on the same checker is given one node and
  returns \<open>totalChecks = 2\<close>.
\<close>

theorem stats_not_reset_counterexample:
  "totalChecks (checkResult.stats
      (fst (checkAllNodes ex_net_then_down ex_checker_after_A 4 [ex_nodeA]))) = 2
   \<and> length [ex_nodeA] = 1"
  by code_simp

text \<open>
  Claim C3, amended. The counters are set to zero when the checker is constructed and
  are never reset: the \<open>totalChecks\<close> a call returns is the checker's \<open>totalChecks\<close>
  before the call plus the length of the call's list, and the checker keeps that value.
  On a new checker it is the length of the list.
\<close>

theorem stats_accumulate:
  "totalChecks (checkResult.stats (fst (checkAllNodes net c n nodeList)))
     = totalChecks (checker.stats c) + length nodeList
   \<and> totalChecks (checker.stats (fst (snd (checkAllNodes net c n nodeList))))
     = totalChecks (checker.stats c) + length nodeList
   \<and> totalChecks (checkResult.stats (fst (checkAllNodes net constructor n nodeList)))
     = length nodeList"
  by (simp add: checkAllNodes_total checkAllNodes_checker loop_total constructor_def)

section \<open>Claims on the ranking\<close>

text \<open>
  Claim C8. The list \<open>healthy\<close> returned by \<open>checkAllNodes\<close> is in descending order
  of score, and the sort is stable: for every score, the nodes with that score appear
  in the returned list in the order in which the loop collected them, which is their
  order in the input list.
\<close>

theorem checkAllNodes_sorted_stable:
  "sorted_wrt (\<lambda>a b. score b \<le> score a)
     (checkResult.healthy (fst (checkAllNodes net c n nodeList)))
   \<and> (\<forall>s. filter (\<lambda>x. score x = s) (checkResult.healthy (fst (checkAllNodes net c n nodeList)))
          = filter (\<lambda>x. score x = s) (snd (snd (checkAllNodes_loop net c n [] nodeList))))
   \<and> subseq (map node_of (snd (snd (checkAllNodes_loop net c n [] nodeList)))) nodeList"
proof -
  have "subseq (map node_of (snd (snd (checkAllNodes_loop net c n [] nodeList)))) nodeList"
    using loop_acc [of net c n "[]" nodeList] by auto
  then show ?thesis
    unfolding checkAllNodes_healthy
    by (simp add: sorted_sort_cmp sort_cmp_stable)
qed

text \<open>Instance of C8: scores 70, 90, 70 for A, B, C are returned as B, A, C.\<close>

theorem checkAllNodes_sorted_stable_witness:
  "map node.id (snd (snd (checkAllNodes_loop ex_net_tie constructor 0 []
                            [ex_nodeA, ex_nodeB, ex_nodeC]))) = [''A'', ''B'', ''C'']
   \<and> map score (snd (snd (checkAllNodes_loop ex_net_tie constructor 0 []
                            [ex_nodeA, ex_nodeB, ex_nodeC]))) = [70, 90, 70]
   \<and> map node.id (checkResult.healthy (fst (checkAllNodes ex_net_tie constructor 0
                            [ex_nodeA, ex_nodeB, ex_nodeC]))) = [''B'', ''A'', ''C'']
   \<and> sorted_wrt (\<lambda>a b. score b \<le> score a)
        (checkResult.healthy (fst (checkAllNodes ex_net_tie constructor 0
                            [ex_nodeA, ex_nodeB, ex_nodeC])))"
proof -
  have a: "map node.id (snd (snd (checkAllNodes_loop ex_net_tie (constructor :: unit checker) 0 []
                            [ex_nodeA, ex_nodeB, ex_nodeC]))) = [''A'', ''B'', ''C'']"
    by code_simp
  have b: "map score (snd (snd (checkAllNodes_loop ex_net_tie (constructor :: unit checker) 0 []
                            [ex_nodeA, ex_nodeB, ex_nodeC]))) = [70, 90, 70]"
    by code_simp
  have d: "map node.id (checkResult.healthy (fst (checkAllNodes ex_net_tie (constructor :: unit checker) 0
                            [ex_nodeA, ex_nodeB, ex_nodeC]))) = [''B'', ''A'', ''C'']"
    by code_simp
  show ?thesis
    using a b d
      checkAllNodes_sorted_stable [of ex_net_tie "constructor :: unit checker" 0
                                      "[ex_nodeA, ex_nodeB, ex_nodeC]"]
    by blast
qed

text \<open>
  Claim C10. Every scored node in the returned list \<open>healthy\<close> has a confirmation
  latency from 1 to 150, and its score is at most 119, so never 120.
\<close>

theorem healthy_latency_score_bounds:
  "\<forall>s \<in> set (checkResult.healthy (fst (checkAllNodes net c n nodeList))).
      (\<exists>l. scoredNode.latency s = Some l \<and> 1 \<le> l \<and> l \<le> 150)
        \<and> score s \<le> 119 \<and> score s \<noteq> 120"
proof -
  have "\<forall>s \<in> set (snd (snd (checkAllNodes_loop net c n [] nodeList))). scored_ok s"
    by (rule loop_scored_ok) simp
  then show ?thesis
    unfolding checkAllNodes_healthy set_sort_cmp
    by (auto simp: scored_ok_def)
qed

text \<open>Instance of C10: node A, confirmed at 95 ms against an average of 100 ms, scores 25.\<close>

theorem healthy_latency_score_bounds_witness:
  "hd (checkResult.healthy (fst (checkAllNodes ex_net_steady constructor 0 [ex_nodeA])))
      \<in> set (checkResult.healthy (fst (checkAllNodes ex_net_steady constructor 0 [ex_nodeA])))
   \<and> scoredNode.latency
        (hd (checkResult.healthy (fst (checkAllNodes ex_net_steady constructor 0 [ex_nodeA]))))
      = Some 95
   \<and> score (hd (checkResult.healthy (fst (checkAllNodes ex_net_steady constructor 0 [ex_nodeA]))))
      = 25
   \<and> score (hd (checkResult.healthy (fst (checkAllNodes ex_net_steady constructor 0 [ex_nodeA]))))
      \<le> 119"
proof -
  let ?h = "checkResult.healthy (fst (checkAllNodes ex_net_steady (constructor :: unit checker) 0 [ex_nodeA]))"
  have m: "hd ?h \<in> set ?h"
    by code_simp
  have l: "scoredNode.latency (hd ?h) = Some 95"
    by code_simp
  have s: "score (hd ?h) = 25"
    by code_simp
  have "score (hd ?h) \<le> 119"
    using healthy_latency_score_bounds [of ex_net_steady "constructor :: unit checker" 0 "[ex_nodeA]"] m
    by blast
  with m l s show ?thesis by simp
qed

section \<open>Claims on the registry\<close>

text \<open>
  Claim C7. In every state the checker can be in, \<open>getBestNode\<close> returns nothing when
  the healthy map is empty; otherwise it returns the entry with the lowest recorded
  confirmation latency, and among several with that latency the one inserted first:
  every entry before it in insertion order has a strictly higher latency, every entry
  after it a latency at least as high. (No recorded latency is null.)
\<close>

theorem getBestNode_lowest_latency:
  assumes "reachable c"
  shows "(healthyNodes c = [] \<longrightarrow> getBestNode c = None)
     \<and> (healthyNodes c \<noteq> [] \<longrightarrow>
          (\<exists>pre k e post. healthyNodes c = pre @ (k, e) # post
              \<and> getBestNode c = Some e
              \<and> (\<forall>x \<in> set pre. ToNumber (probeResult.latency (health e))
                                   < ToNumber (probeResult.latency (health (snd x))))
              \<and> (\<forall>x \<in> set post. ToNumber (probeResult.latency (health e))
                                   \<le> ToNumber (probeResult.latency (health (snd x))))))
     \<and> (\<forall>x \<in> set (healthyNodes c). probeResult.latency (health (snd x)) \<noteq> None)"
proof -
  have ok: "\<forall>x \<in> set (healthyNodes c). entry_ok (snd x)"
    using assms by (rule reachable_entries_ok)
  have "healthyNodes c = [] \<longrightarrow> getBestNode c = None"
    by (simp add: getBestNode_def)
  moreover have "healthyNodes c \<noteq> [] \<longrightarrow>
          (\<exists>pre k e post. healthyNodes c = pre @ (k, e) # post
              \<and> getBestNode c = Some e
              \<and> (\<forall>x \<in> set pre. ToNumber (probeResult.latency (health e))
                                   < ToNumber (probeResult.latency (health (snd x))))
              \<and> (\<forall>x \<in> set post. ToNumber (probeResult.latency (health e))
                                   \<le> ToNumber (probeResult.latency (health (snd x)))))"
    unfolding getBestNode_def using getBestNode_loop_first [OF ok] by blast
  moreover have "\<forall>x \<in> set (healthyNodes c). probeResult.latency (health (snd x)) \<noteq> None"
    using ok by (auto simp: entry_ok_def)
  ultimately show ?thesis by blast
qed

text \<open>
  Instance of C7: after A and B are registered with confirmation latencies 80 and 60,
  the best node is B; on the new checker there is none.
\<close>

theorem getBestNode_lowest_latency_witness:
  "reachable ex_checker_80_60
   \<and> map (\<lambda>x. (fst x, probeResult.latency (health (snd x)))) (healthyNodes ex_checker_80_60)
        = [(''A'', Some 80), (''B'', Some 60)]
   \<and> map_option node.id (getBestNode ex_checker_80_60) = Some ''B''
   \<and> (\<exists>pre k e post. healthyNodes ex_checker_80_60 = pre @ (k, e) # post
              \<and> getBestNode ex_checker_80_60 = Some e
              \<and> (\<forall>x \<in> set pre. ToNumber (probeResult.latency (health e))
                                   < ToNumber (probeResult.latency (health (snd x))))
              \<and> (\<forall>x \<in> set post. ToNumber (probeResult.latency (health e))
                                   \<le> ToNumber (probeResult.latency (health (snd x)))))
   \<and> reachable (constructor :: unit checker)
   \<and> getBestNode (constructor :: unit checker) = None"
proof -
  have r0: "reachable (constructor :: unit checker)"
    by (rule reachable_new)
  have r: "reachable ex_checker_80_60"
    unfolding ex_checker_80_60_def by (rule reachable_run [OF reachable_new])
  have ne: "healthyNodes ex_checker_80_60 \<noteq> []"
    by code_simp
  have e0: "healthyNodes (constructor :: unit checker) = []"
    by (simp add: constructor_def)
  have ls: "map (\<lambda>x. (fst x, probeResult.latency (health (snd x)))) (healthyNodes ex_checker_80_60)
        = [(''A'', Some 80), (''B'', Some 60)]"
    by code_simp
  have b: "map_option node.id (getBestNode ex_checker_80_60) = Some ''B''"
    by code_simp
  show ?thesis
    using r r0 ls b getBestNode_lowest_latency [OF r] getBestNode_lowest_latency [OF r0] ne e0
    by blast
qed

end
